theory Spec2Isabelle
  imports Main
begin

section \<open>Text: Python strings as lists of code points\<close>

text \<open>
  A Python \<open>str\<close> is a sequence of Unicode code points; \<open>len\<close> counts code points.
  A character is its code point, a string the list of them.
\<close>

type_synonym uchar = nat
type_synonym ustring = "nat list"

text \<open>
  The white space of \<open>str.split()\<close>, \<open>str.strip()\<close> and of the regular expression
  class \<open>\s\<close> on \<open>str\<close> patterns: the code points for which \<open>str.isspace\<close> holds.
\<close>

definition is_space :: "uchar \<Rightarrow> bool" where
  "is_space c \<longleftrightarrow>
     (9 \<le> c \<and> c \<le> 13) \<or> (28 \<le> c \<and> c \<le> 32) \<or> c = 133 \<or> c = 160 \<or> c = 5760 \<or>
     (8192 \<le> c \<and> c \<le> 8202) \<or> c = 8232 \<or> c = 8233 \<or> c = 8239 \<or> c = 8287 \<or> c = 12288"

text \<open>
  The class \<open>\w\<close> (alphanumeric code points and the underscore) is a table of the Unicode
  database with more than 130000 members; the functions below take it as the parameter
  \<open>isw\<close>. \<open>word_char\<close> is a part of it: its ASCII members, the Arabic letters
  U+0621 to U+063A and U+0641 to U+064A, and the Persian letters pe, che, zhe, kaf, gaf and
  yeh. It is used to run the functions on inputs made of ASCII and Persian text.
\<close>

definition word_char :: "uchar \<Rightarrow> bool" where
  "word_char c \<longleftrightarrow>
     (48 \<le> c \<and> c \<le> 57) \<or> (65 \<le> c \<and> c \<le> 90) \<or> (97 \<le> c \<and> c \<le> 122) \<or> c = 95 \<or>
     (1569 \<le> c \<and> c \<le> 1594) \<or> (1601 \<le> c \<and> c \<le> 1610) \<or>
     c = 1662 \<or> c = 1670 \<or> c = 1688 \<or> c = 1705 \<or> c = 1711 \<or> c = 1740"

text \<open>\<open>s.strip()\<close>\<close>

definition py_strip :: "ustring \<Rightarrow> ustring" where
  "py_strip s = rev (dropWhile is_space (rev (dropWhile is_space s)))"

text \<open>
  \<open>s.split()\<close>: the maximal runs of non-space characters, in order.
  \<open>cur\<close> is the token being read.
\<close>

fun split_acc :: "ustring \<Rightarrow> ustring \<Rightarrow> ustring list" where
  "split_acc cur [] = (if cur = [] then [] else [cur])"
| "split_acc cur (c # cs) =
     (if is_space c then (if cur = [] then split_acc [] cs else cur # split_acc [] cs)
      else split_acc (cur @ [c]) cs)"

definition py_split :: "ustring \<Rightarrow> ustring list" where
  "py_split s = split_acc [] s"

text \<open>\<open>sep.join(ws)\<close>\<close>

fun py_join :: "ustring \<Rightarrow> ustring list \<Rightarrow> ustring" where
  "py_join sep [] = []"
| "py_join sep [w] = w"
| "py_join sep (w # v # ws) = w @ sep @ py_join sep (v # ws)"

text \<open>\<open>pat in s\<close> for strings: \<open>pat\<close> occurs in \<open>s\<close> as a contiguous substring.\<close>

fun starts_with :: "ustring \<Rightarrow> ustring \<Rightarrow> bool" where
  "starts_with [] s = True"
| "starts_with (p # ps) [] = False"
| "starts_with (p # ps) (c # cs) = (p = c \<and> starts_with ps cs)"

fun py_in :: "ustring \<Rightarrow> ustring \<Rightarrow> bool" where
  "py_in pat [] = (pat = [])"
| "py_in pat (c # cs) = (starts_with pat (c # cs) \<or> py_in pat cs)"

text \<open>
  \<open>s.replace(pat, "")\<close> for a non-empty \<open>pat\<close>: every occurrence found scanning from
  the left, without overlaps, is removed. \<open>k\<close> counts the characters of the occurrence
  being skipped.
\<close>

fun remove_from :: "ustring \<Rightarrow> nat \<Rightarrow> ustring \<Rightarrow> ustring" where
  "remove_from pat k [] = []"
| "remove_from pat k (c # cs) =
     (if 0 < k then remove_from pat (k - 1) cs
      else if starts_with pat (c # cs) then remove_from pat (length pat - 1) cs
      else c # remove_from pat 0 cs)"

definition py_remove :: "ustring \<Rightarrow> ustring \<Rightarrow> ustring" where
  "py_remove pat s = remove_from pat 0 s"

text \<open>
  \<open>re.search(r'\((.*?)\)', s)\<close>, returning group 1. \<open>lazy_group\<close> reads after an
  opening parenthesis (code point 40) up to the first closing one (41); the dot does not
  match a line feed (10), so a line feed met first makes this start position fail and
  the search goes on with the next opening parenthesis.
\<close>

fun lazy_group :: "ustring \<Rightarrow> ustring option" where
  "lazy_group [] = None"
| "lazy_group (c # cs) =
     (if c = 41 then Some []
      else if c = 10 then None
      else (case lazy_group cs of None \<Rightarrow> None | Some t \<Rightarrow> Some (c # t)))"

fun re_search_paren :: "ustring \<Rightarrow> ustring option" where
  "re_search_paren [] = None"
| "re_search_paren (c # cs) =
     (if c = 40 then (case lazy_group cs of Some t \<Rightarrow> Some t | None \<Rightarrow> re_search_paren cs)
      else re_search_paren cs)"

text \<open>\<open>re.sub(r'[^\w\s]', '', s)\<close>\<close>

definition re_sub_nonword :: "(uchar \<Rightarrow> bool) \<Rightarrow> ustring \<Rightarrow> ustring" where
  "re_sub_nonword isw s = filter (\<lambda>c. isw c \<or> is_space c) s"

section \<open>TextProcessor\<close>

text \<open>Layer 1: phonetic groups; layer 2: visual groups; both together.\<close>

definition phonetic_groups :: "uchar list list" where
  "phonetic_groups =
     [[1587, 1589, 1579], [1586, 1584, 1590, 1592], [1578, 1591], [1607, 1581], [1594, 1602]]"

definition visual_groups :: "uchar list list" where
  "visual_groups = [[1705, 1711], [1576, 1662], [1580, 1670], [1740, 1574]]"

definition all_subs :: "uchar list list" where
  "all_subs = phonetic_groups @ visual_groups"

text \<open>Layer 3: the transliteration map, a dictionary from a character to a string.\<close>

definition f_to_e_map :: "(uchar \<times> ustring) list" where
  "f_to_e_map =
     [(1575, [97]), (1570, [97]), (1576, [98]), (1662, [112]), (1578, [116]), (1579, [115]),
      (1580, [106]), (1670, [99, 104]), (1581, [104]), (1582, [107, 104]), (1583, [100]),
      (1584, [122]), (1585, [114]), (1586, [122]), (1688, [122, 104]), (1587, [115]),
      (1588, [115, 104]), (1589, [115]), (1590, [122]), (1591, [116]), (1592, [122]),
      (1593, [97]), (1594, [103, 104]), (1601, [102]), (1602, [103, 104]), (1705, [107]),
      (1711, [103]), (1604, [108]), (1605, [109]), (1606, [110]), (1608, [118]),
      (1607, [104]), (1740, [121]), (32, [32])]"

text \<open>Layer 4: the descriptive terms (stop words).\<close>

definition stop_words :: "ustring list" where
  "stop_words =
     [[1588, 1585, 1705, 1578], [1711, 1585, 1608, 1607], [1589, 1606, 1593, 1578],
      [1589, 1606, 1593, 1578, 1740], [1711, 1587, 1578, 1585],
      [1711, 1587, 1578, 1585, 1588], [1662, 1585, 1583, 1575, 1586],
      [1662, 1585, 1583, 1575, 1586, 1588], [1601, 1585, 1575], [1575, 1740, 1605, 1606],
      [1587, 1575, 1586, 1575, 1606], [1587, 1575, 1586, 1607],
      [1587, 1740, 1587, 1578, 1605], [1662, 1575, 1585, 1587], [1606, 1608, 1740, 1606],
      [1605, 1607, 1585], [1578, 1705], [1576, 1585, 1578, 1585],
      [1591, 1604, 1575, 1740, 1740], [1587, 1576, 1586], [1580, 1606, 1608, 1576],
      [1588, 1605, 1575, 1604], [1588, 1585, 1602], [1594, 1585, 1576],
      [1605, 1585, 1705, 1586, 1740], [1575, 1740, 1585, 1575, 1606, 1740, 1575, 1606],
      [1578, 1608, 1587, 1593, 1607], [1601, 1606, 1575, 1608, 1585, 1740],
      [1582, 1583, 1605, 1575, 1578], [1605, 1607, 1606, 1583, 1587, 1740],
      [1576, 1575, 1586, 1585, 1711, 1575, 1606, 1740],
      [1576, 1740, 1606, 32, 1575, 1604, 1605, 1604, 1604], [1662, 1582, 1588],
      [1578, 1608, 1604, 1740, 1583, 1740], [1570, 1585, 1740, 1575],
      [1705, 1740, 1575, 1606], [1662, 1608, 1740, 1575]]"

text \<open>\<open>extract_core_root\<close>: the words that are no stop words, or the text itself when none is left.\<close>

definition extract_core_root :: "ustring \<Rightarrow> ustring" where
  "extract_core_root text =
     (let words = py_split text;
          core_words = filter (\<lambda>w. w \<notin> set stop_words) words
      in if core_words = [] then text else py_join [32] core_words)"

text \<open>
  \<open>generate_permutations\<close>. For each character, the first group of \<open>all_subs\<close> that has it,
  or the character alone.
\<close>

definition option_of :: "uchar \<Rightarrow> uchar list" where
  "option_of c = (case find (\<lambda>g. c \<in> set g) all_subs of
                    Some g \<Rightarrow> g | None \<Rightarrow> [c])"

definition options :: "ustring \<Rightarrow> uchar list list" where
  "options text = map option_of text"

text \<open>
  \<open>itertools.product(*options)\<close>: the tuples in the order of the generator, the last
  position advancing fastest. A tuple of one-character strings joined by \<open>''\<close> is the
  list of its characters.
\<close>

fun itertools_product :: "'a list list \<Rightarrow> 'a list list" where
  "itertools_product [] = [[]]"
| "itertools_product (opt # opts) =
     concat (map (\<lambda>x. map (\<lambda>p. x # p) (itertools_product opts)) opt)"

text \<open>
  \<open>list(set(xs))\<close>. A Python set iterates in the order of its hash table, which depends on
  the hashes of the members (salted per process for strings) and on the insertions made;
  the language fixes only that each member comes once. The order is the parameter
  \<open>enum\<close>: a function from the sequence of insertions to the list obtained, of which
  \<open>set_iteration\<close> says what the language guarantees.
\<close>

definition set_iteration :: "('a list \<Rightarrow> 'a list) \<Rightarrow> bool" where
  "set_iteration enum \<longleftrightarrow> (\<forall>xs. set (enum xs) = set xs \<and> distinct (enum xs))"

text \<open>Two iteration orders: by first insertion, and the reverse of it.\<close>

definition insertion_order :: "'a list \<Rightarrow> 'a list" where
  "insertion_order xs = rev (remdups (rev xs))"

definition reversed_order :: "'a list \<Rightarrow> 'a list" where
  "reversed_order xs = remdups (rev xs)"

definition generate_permutations :: "(ustring list \<Rightarrow> ustring list) \<Rightarrow> ustring \<Rightarrow> ustring list" where
  "generate_permutations enum text = enum (itertools_product (options text))"

text \<open>\<open>analyze_name\<close>, by the local variables of the source.\<close>

record analysis_report =
  layer3_translation :: "ustring option"
  layer4_core_root :: ustring
  layer3_fingilish :: ustring

definition translation :: "ustring \<Rightarrow> ustring option" where
  "translation raw_input = re_search_paren raw_input"

definition persian_part :: "ustring \<Rightarrow> ustring" where
  "persian_part raw_input =
     (case re_search_paren raw_input of
        None \<Rightarrow> raw_input
      | Some t \<Rightarrow> py_strip (py_remove ([40] @ t @ [41]) raw_input))"

definition clean_name :: "(uchar \<Rightarrow> bool) \<Rightarrow> ustring \<Rightarrow> ustring" where
  "clean_name isw raw_input = py_strip (re_sub_nonword isw (persian_part raw_input))"

definition core_root :: "(uchar \<Rightarrow> bool) \<Rightarrow> ustring \<Rightarrow> ustring" where
  "core_root isw raw_input = extract_core_root (clean_name isw raw_input)"

text \<open>Step 3 of \<open>analyze_name\<close>: what the confusable layers add for a core root.\<close>

definition confusable_variants :: "(ustring list \<Rightarrow> ustring list) \<Rightarrow> ustring \<Rightarrow> ustring list" where
  "confusable_variants enum root =
     (if length root < 15 then
        (let perms = generate_permutations enum root
         in if length perms < 32 then perms else take 15 perms)
      else [])"

definition fingilish :: "ustring \<Rightarrow> ustring" where
  "fingilish root =
     concat (map (\<lambda>c. case map_of f_to_e_map c of Some t \<Rightarrow> t | None \<Rightarrow> [c]) root)"

text \<open>The members put into \<open>variants_to_search\<close>, in the order of the insertions.\<close>

definition inserted :: "(ustring list \<Rightarrow> ustring list) \<Rightarrow> (uchar \<Rightarrow> bool) \<Rightarrow> ustring \<Rightarrow> ustring list" where
  "inserted enum isw raw_input =
     (case translation raw_input of None \<Rightarrow> [] | Some t \<Rightarrow> [t])
     @ [clean_name isw raw_input]
     @ (if core_root isw raw_input \<noteq> clean_name isw raw_input then [core_root isw raw_input] else [])
     @ confusable_variants enum (core_root isw raw_input)
     @ [fingilish (core_root isw raw_input)]"

definition analyze_name ::
  "(ustring list \<Rightarrow> ustring list) \<Rightarrow> (uchar \<Rightarrow> bool) \<Rightarrow> ustring \<Rightarrow> ustring list \<times> analysis_report" where
  "analyze_name enum isw raw_input =
     (enum (inserted enum isw raw_input),
      \<lparr>layer3_translation = translation raw_input,
       layer4_core_root = core_root isw raw_input,
       layer3_fingilish = fingilish (core_root isw raw_input)\<rparr>)"

section \<open>WorkerThread\<close>

subsection \<open>What the worker emits\<close>

text \<open>
  A row sent on \<open>result_signal\<close>: the dictionary with the keys \<open>Search Term\<close>,
  \<open>Variant\<close>, \<open>Status\<close>, \<open>Brand\<close>, \<open>Reg No\<close>, \<open>Owner\<close> and \<open>Goods\<close>.
\<close>

record result_row =
  search_term :: ustring
  variant :: ustring
  status :: ustring
  brand :: ustring
  reg_no :: ustring
  owner :: ustring
  goods :: ustring

text \<open>The three values of \<open>Status\<close>: free (confirmed), has a conflict, error.\<close>

definition status_free :: ustring where
  "status_free = [1570, 1586, 1575, 1583, 32, 40, 1578, 1571, 1740, 1740, 1583, 32, 1588, 1583, 1607, 41]"

definition status_conflict :: ustring where
  "status_conflict = [1583, 1575, 1585, 1575, 1740, 32, 1578, 1593, 1575, 1585, 1590]"

definition status_error :: ustring where
  "status_error = [1582, 1591, 1575]"

text \<open>The row of the final report for a name (lines 296 to 300).\<close>

definition summary_row :: "ustring \<Rightarrow> result_row" where
  "summary_row name =
     \<lparr>search_term = name,
      variant = [1605, 1580, 1605, 1608, 1593, 32, 1576, 1585, 1585, 1587, 1740, 8204, 1607, 1575],
      status = status_free,
      brand = [45, 45, 45],
      reg_no = [45],
      owner = [1576, 1583, 1608, 1606, 32, 1587, 1575, 1576, 1602, 1607, 32, 1578, 1593, 1575, 1585, 1590],
      goods = [45]\<rparr>"

text \<open>
  The lines sent on \<open>log_signal\<close>, by the place that sends them, with the values
  formatted into them.
\<close>

datatype log_line =
    LogFileError ustring
  | LogCaptchaPrompt
  | LogCaptchaImageError ustring
  | LogAnalyzing ustring
  | LogCoreRoot ustring
  | LogVariantCount nat
  | LogCaptchaExpired
  | LogSiteMessage ustring
  | LogNetworkError ustring

datatype status_line = WaitingForUser | Analyzing

text \<open>
  What the worker does to the browser: starting it, opening the search page, dismissing
  the notice of the first visit, filling in and submitting the form (variant, class codes
  and captcha typed), clicking the captcha image for a new one, reloading the page,
  closing the browser.
\<close>

datatype browser_action =
    SetupDriver
  | GetSearchPage
  | DismissNotices
  | Submit ustring ustring "ustring option"
  | ClickCaptchaImage
  | Refresh
  | Quit

datatype event =
    Log log_line
  | CaptchaImage
  | Status status_line
  | Progress nat nat
  | Result result_row
  | Browser browser_action
  | Finished

definition is_summary :: "event \<Rightarrow> bool" where
  "is_summary ev = (case ev of Result r \<Rightarrow> status r = status_free | _ \<Rightarrow> False)"

definition is_scraped :: "event \<Rightarrow> bool" where
  "is_scraped ev = (case ev of Result r \<Rightarrow> status r \<noteq> status_free | _ \<Rightarrow> False)"

subsection \<open>The state\<close>

text \<open>
  The fields of the worker that the methods read and write, and the two local variables
  of \<open>run\<close> that live across search attempts. The operator's thread writes
  \<open>is_running\<close> (\<open>stop\<close>), \<open>is_paused\<close> (\<open>toggle_pause\<close>) and, by
  \<open>receive_captcha\<close>, \<open>captcha_code\<close> and \<open>waiting_for_captcha\<close>.
\<close>

record worker =
  is_running :: bool
  is_paused :: bool
  captcha_code :: "ustring option"
  waiting_for_captcha :: bool
  current_captcha :: "ustring option"
  found_any_conflict :: bool

definition init_worker :: worker where
  "init_worker =
     \<lparr>is_running = True, is_paused = False, captcha_code = None, waiting_for_captcha = False,
      current_captcha = None, found_any_conflict = False\<rparr>"

definition receive_captcha :: "ustring \<Rightarrow> worker \<Rightarrow> worker" where
  "receive_captcha code w = w\<lparr>captcha_code := Some code, waiting_for_captcha := False\<rparr>"

definition stop :: "worker \<Rightarrow> worker" where
  "stop w = w\<lparr>is_running := False\<rparr>"

definition toggle_pause :: "worker \<Rightarrow> worker" where
  "toggle_pause w = w\<lparr>is_paused := \<not> is_paused w\<rparr>"

text \<open>
  The operator's thread runs while the worker waits for the browser or sleeps. Each reply
  of the environment below says whether \<open>stop\<close> was called during that operation;
  \<open>arrive\<close> applies it. \<open>pause_check\<close> only delays the worker and is left out.
\<close>

definition arrive :: "bool \<Rightarrow> worker \<Rightarrow> worker" where
  "arrive stopped w = (if stopped then stop w else w)"

subsection \<open>The captcha\<close>

text \<open>
  What \<open>get_captcha_image\<close> meets: the screenshot raises (with the message of the
  exception), or the image is sent and, while the worker polls, the operator submits a
  code or stops the run.
\<close>

datatype captcha_reply = ScreenshotFails ustring | OperatorSubmits ustring | OperatorStops

definition placeholder :: ustring where
  "placeholder = [48, 48, 48, 48, 48]"

definition captcha_events :: "event list" where
  "captcha_events = [CaptchaImage, Log LogCaptchaPrompt, Status WaitingForUser, Status Analyzing]"

text \<open>
  With \<open>is_running\<close> false on entry the polling loop is not entered: the method returns
  the code stored before, and \<open>waiting_for_captcha\<close> stays set.
\<close>

fun get_captcha_image :: "captcha_reply \<Rightarrow> worker \<Rightarrow> ustring option \<times> event list \<times> worker" where
  "get_captcha_image (ScreenshotFails e) w = (Some placeholder, [Log (LogCaptchaImageError e)], w)"
| "get_captcha_image (OperatorSubmits code) w =
     (let w1 = w\<lparr>waiting_for_captcha := True\<rparr>;
          w2 = (if is_running w1 then receive_captcha code w1 else w1)
      in (captcha_code w2, captcha_events, w2))"
| "get_captcha_image OperatorStops w =
     (let w1 = w\<lparr>waiting_for_captcha := True\<rparr>;
          w2 = stop w1
      in (captcha_code w2, captcha_events, w2))"

subsection \<open>Scraping the result pages\<close>

text \<open>
  \<open>extract_data\<close>: the fields read (registration number, owner, goods), or a failure to
  read them, which gives the row of status error.
\<close>

datatype detail = Fields ustring ustring ustring | Unreadable

definition extract_data :: "ustring \<Rightarrow> ustring \<Rightarrow> ustring \<Rightarrow> detail \<Rightarrow> event list" where
  "extract_data st var title d =
     (case d of
        Fields r ow g \<Rightarrow>
          [Result \<lparr>search_term = st, variant = var, status = status_conflict, brand = title,
                   reg_no = py_strip r, owner = py_strip ow, goods = take 100 (py_strip g)\<rparr>]
      | Unreadable \<Rightarrow>
          [Result \<lparr>search_term = st, variant = var, status = status_error, brand = title,
                   reg_no = [45],
                   owner = [1582, 1591, 1575, 32, 1583, 1585, 32, 1582, 1608, 1575, 1606, 1583, 1606],
                   goods = [45]\<rparr>])"

text \<open>
  One link of a result page: it opens (a window or the modal) with the title read from
  its heading (\<open>None\<close> when that raises) and \<open>extract_data\<close> is called, or an exception
  before that call is swallowed and nothing is emitted.
\<close>

datatype link_reply = Opened "ustring option" detail | NotOpened

definition visit_link :: "ustring \<Rightarrow> ustring \<Rightarrow> link_reply \<Rightarrow> event list" where
  "visit_link st var l =
     (case l of
        NotOpened \<Rightarrow> []
      | Opened t d \<Rightarrow>
          extract_data st var
            (case t of None \<Rightarrow> [85, 110, 107, 110, 111, 119, 110] | Some x \<Rightarrow> py_strip x) d)"

text \<open>
  The loop over \<open>range(len(links))\<close>, with \<open>k\<close> iterations left. \<open>ls\<close> holds the
  links still found when the list is read again, each with what visiting it gives and
  whether \<open>stop\<close> is called meanwhile; once it is used up, \<open>i >= len(links)\<close> and the
  loop breaks. The first component tells that the method returned from inside the loop.
\<close>

fun scrape_links ::
  "ustring \<Rightarrow> ustring \<Rightarrow> nat \<Rightarrow> (link_reply \<times> bool) list \<Rightarrow> worker \<Rightarrow> bool \<times> event list \<times> worker" where
  "scrape_links st var 0 ls w = (False, [], w)"
| "scrape_links st var (Suc k) ls w =
     (if \<not> is_running w then (True, [], w)
      else (case ls of
              [] \<Rightarrow> (False, [], w)
            | (l, stopped) # rest \<Rightarrow>
                (case scrape_links st var k rest (arrive stopped w) of
                   (ret, evs, w') \<Rightarrow> (ret, visit_link st var l @ evs, w'))))"

text \<open>
  A result page: reading the list of links raises, or it gives \<open>n_links\<close> links, which
  are visited, and then a next-page control is found and clicked or not. \<open>stop\<close> may be
  called while the list is read and while the next page loads.
\<close>

datatype page =
    PageFails ustring
  | Page (stop_listing: bool) (n_links: nat) (links: "(link_reply \<times> bool) list")
         (has_next: bool) (stop_turning: bool)

text \<open>
  \<open>scrape_all_pages\<close>, with the count so far. A script of pages used up stands for a page
  without links. The result is the count returned, or the message of the exception that
  leaves the method.
\<close>

fun scrape_all_pages ::
  "ustring \<Rightarrow> ustring \<Rightarrow> page list \<Rightarrow> nat \<Rightarrow> worker \<Rightarrow> (ustring + nat) \<times> event list \<times> worker" where
  "scrape_all_pages st var [] seen w = (Inr seen, [], w)"
| "scrape_all_pages st var (PageFails e # ps) seen w =
     (if \<not> is_running w then (Inr seen, [], w) else (Inl e, [], w))"
| "scrape_all_pages st var (Page sl n ls nx sn # ps) seen w =
     (if \<not> is_running w then (Inr seen, [], w)
      else if n = 0 then (Inr seen, [], arrive sl w)
      else (case scrape_links st var n ls (arrive sl w) of
              (ret, evs, w1) \<Rightarrow>
                if ret then (Inr (seen + n), evs, w1)
                else if nx then
                  (case scrape_all_pages st var ps (seen + n) (arrive sn w1) of
                     (r, evs', w2) \<Rightarrow> (r, evs @ evs', w2))
                else (Inr (seen + n), evs, w1)))"

subsection \<open>Searching\<close>

text \<open>
  What the site does with one submitted search: an exception somewhere in the \<open>try\<close>
  body before the results are read, an alert with its text, or a results panel with its
  text and the pages behind it.
\<close>

datatype reply = Raises ustring | Alert ustring | Answer ustring "page list"

text \<open>
  One pass of the loop \<open>while not success and self.is_running\<close>: the reply, whether
  \<open>stop\<close> is called while the form is submitted, what \<open>get_captcha_image\<close> meets if
  this pass calls it, and whether \<open>stop\<close> is called during the sleep that ends a
  successful pass.
\<close>

record attempt =
  reply :: reply
  stop_during :: bool
  recaptcha :: captcha_reply
  stop_after :: bool

definition is_captcha_alert :: "ustring \<Rightarrow> bool" where
  "is_captcha_alert err \<longleftrightarrow>
     py_in [1705, 1583, 32, 1575, 1605, 1606, 1740, 1578, 1740] err \<or>
     py_in [1575, 1588, 1578, 1576, 1575, 1607] err"

definition no_record_found :: "ustring \<Rightarrow> bool" where
  "no_record_found panel \<longleftrightarrow>
     py_in [1585, 1705, 1608, 1585, 1583, 1740, 32, 1740, 1575, 1601, 1578, 32, 1606, 1588, 1583] panel"

text \<open>The handler \<open>except Exception\<close> of the loop (lines 287 to 292).\<close>

definition on_exception :: "ustring \<Rightarrow> captcha_reply \<Rightarrow> worker \<Rightarrow> event list \<times> worker" where
  "on_exception e c w =
     (case get_captcha_image c w of
        (tok, evs, w') \<Rightarrow>
          ([Log (LogNetworkError (take 50 e)), Browser Refresh] @ evs, w'\<lparr>current_captcha := tok\<rparr>))"

text \<open>The branch of the captcha alert (lines 259 to 265).\<close>

definition on_captcha_alert :: "captcha_reply \<Rightarrow> worker \<Rightarrow> event list \<times> worker" where
  "on_captcha_alert c w =
     (case get_captcha_image c w of
        (tok, evs, w') \<Rightarrow>
          ([Log LogCaptchaExpired, Browser ClickCaptchaImage] @ evs, w'\<lparr>current_captcha := tok\<rparr>))"

text \<open>
  The body of the \<open>try\<close> for one reply. \<open>Retry\<close>: the loop goes on with the same variant
  (\<open>continue\<close>, or the exception handler has run). \<open>Leave\<close>: the loop is left, by
  \<open>break\<close> or with \<open>success\<close> set.
\<close>

datatype outcome = Retry | Leave

definition attempt_once ::
  "ustring \<Rightarrow> ustring \<Rightarrow> ustring \<Rightarrow> attempt \<Rightarrow> worker \<Rightarrow> outcome \<times> event list \<times> worker" where
  "attempt_once classes name var a w =
     (let submit = Browser (Submit var classes (current_captcha w));
          w1 = arrive (stop_during a) w
      in case reply a of
           Raises e \<Rightarrow>
             (case on_exception e (recaptcha a) w1 of (evs, w2) \<Rightarrow> (Retry, submit # evs, w2))
         | Alert err \<Rightarrow>
             if is_captcha_alert err
             then (case on_captcha_alert (recaptcha a) w1 of (evs, w2) \<Rightarrow> (Retry, submit # evs, w2))
             else (Leave, [submit, Log (LogSiteMessage err)], w1)
         | Answer panel pages \<Rightarrow>
             if no_record_found panel then (Leave, [submit], arrive (stop_after a) w1)
             else (case scrape_all_pages name var pages 0 w1 of
                     (Inr items, evs, w2) \<Rightarrow>
                       (Leave, submit # evs,
                        arrive (stop_after a)
                          (if 0 < items then w2\<lparr>found_any_conflict := True\<rparr> else w2))
                   | (Inl e, evs, w2) \<Rightarrow>
                       (case on_exception e (recaptcha a) w2 of
                          (evs', w3) \<Rightarrow> (Retry, submit # evs @ evs', w3))))"

text \<open>
  The loop \<open>while not success and self.is_running\<close> for one variant, over the script of
  the attempts still to come. It returns the events, the state and the rest of the
  script. The loop has no bound: when it wants a further attempt and the script has none,
  the result is \<open>None\<close>.
\<close>

fun search_variant ::
  "ustring \<Rightarrow> ustring \<Rightarrow> ustring \<Rightarrow> attempt list \<Rightarrow> worker
     \<Rightarrow> (event list \<times> worker \<times> attempt list) option" where
  "search_variant classes name var [] w = (if \<not> is_running w then Some ([], w, []) else None)"
| "search_variant classes name var (a # as) w =
     (if \<not> is_running w then Some ([], w, a # as)
      else (case attempt_once classes name var a w of
              (Leave, evs, w1) \<Rightarrow> Some (evs, w1, as)
            | (Retry, evs, w1) \<Rightarrow>
                (case search_variant classes name var as w1 of
                   None \<Rightarrow> None
                 | Some (evs', w2, rest) \<Rightarrow> Some (evs @ evs', w2, rest))))"

text \<open>The loop \<open>for variant in variants\<close>.\<close>

fun search_variants ::
  "ustring \<Rightarrow> ustring \<Rightarrow> ustring list \<Rightarrow> attempt list \<Rightarrow> worker
     \<Rightarrow> (event list \<times> worker \<times> attempt list) option" where
  "search_variants classes name [] as w = Some ([], w, as)"
| "search_variants classes name (var # vars) as w =
     (if \<not> is_running w then Some ([], w, as)
      else (case search_variant classes name var as w of
              None \<Rightarrow> None
            | Some (evs, w1, as1) \<Rightarrow>
                (case search_variants classes name vars as1 w1 of
                   None \<Rightarrow> None
                 | Some (evs', w2, as2) \<Rightarrow> Some (evs @ evs', w2, as2))))"

text \<open>
  The body of the loop over the names, after its check of \<open>is_running\<close>: the analysis,
  the loop over the variants, and the final report for the name.
\<close>

definition process_name ::
  "(ustring list \<Rightarrow> ustring list) \<Rightarrow> (uchar \<Rightarrow> bool) \<Rightarrow> ustring \<Rightarrow> nat \<Rightarrow> nat \<Rightarrow> ustring
     \<Rightarrow> attempt list \<Rightarrow> worker \<Rightarrow> (event list \<times> worker \<times> attempt list) option" where
  "process_name enum isw classes idx n_names name as w =
     (case analyze_name enum isw name of
        (variants, report) \<Rightarrow>
          (case search_variants classes name variants as (w\<lparr>found_any_conflict := False\<rparr>) of
             None \<Rightarrow> None
           | Some (evs, w1, as1) \<Rightarrow>
               Some ([Progress (idx + 1) n_names, Log (LogAnalyzing name),
                      Log (LogCoreRoot (layer4_core_root report)),
                      Log (LogVariantCount (length variants))]
                     @ evs
                     @ (if \<not> found_any_conflict w1 then [Result (summary_row name)] else []),
                     w1, as1)))"

text \<open>The loop \<open>for idx, name in enumerate(names)\<close>.\<close>

fun process_names ::
  "(ustring list \<Rightarrow> ustring list) \<Rightarrow> (uchar \<Rightarrow> bool) \<Rightarrow> ustring \<Rightarrow> nat \<Rightarrow> nat \<Rightarrow> ustring list
     \<Rightarrow> attempt list \<Rightarrow> worker \<Rightarrow> (event list \<times> worker \<times> attempt list) option" where
  "process_names enum isw classes idx n_names [] as w = Some ([], w, as)"
| "process_names enum isw classes idx n_names (name # names) as w =
     (if \<not> is_running w then Some ([], w, as)
      else (case process_name enum isw classes idx n_names name as w of
              None \<Rightarrow> None
            | Some (evs, w1, as1) \<Rightarrow>
                (case process_names enum isw classes (idx + 1) n_names names as1 w1 of
                   None \<Rightarrow> None
                 | Some (evs', w2, as2) \<Rightarrow> Some (evs @ evs', w2, as2))))"

text \<open>
  \<open>run\<close>. The file is the message of the exception that reading it raises, or its lines.
  \<open>first\<close> is what the first call of \<open>get_captcha_image\<close> meets.
\<close>

definition read_names :: "ustring list \<Rightarrow> ustring list" where
  "read_names file_lines = filter (\<lambda>l. l \<noteq> []) (map py_strip file_lines)"

definition run ::
  "(ustring list \<Rightarrow> ustring list) \<Rightarrow> (uchar \<Rightarrow> bool) \<Rightarrow> ustring \<Rightarrow> ustring + ustring list
     \<Rightarrow> captcha_reply \<Rightarrow> attempt list \<Rightarrow> worker \<Rightarrow> (event list \<times> worker \<times> attempt list) option" where
  "run enum isw classes file first as w =
     (case file of
        Inl e \<Rightarrow> Some ([Browser SetupDriver, Browser GetSearchPage, Log (LogFileError e)], w, as)
      | Inr file_lines \<Rightarrow>
          (case get_captcha_image first w of
             (tok, evs, w1) \<Rightarrow>
               (case process_names enum isw classes 0 (length (read_names file_lines))
                       (read_names file_lines) as (w1\<lparr>current_captcha := tok\<rparr>) of
                  None \<Rightarrow> None
                | Some (evs', w2, as') \<Rightarrow>
                    Some ([Browser SetupDriver, Browser GetSearchPage, Browser DismissNotices]
                          @ evs @ evs' @ [Browser Quit, Finished], w2, as'))))"

subsection \<open>Predicates on events and scripts\<close>

text \<open>
  An event that, if it is a row, is a row read from the site (status conflict or error)
  for the search term \<open>st\<close>; an event that, if it is a row, is a row for \<open>name\<close>; an
  attempt none of whose result pages raises when its links are listed.
\<close>

definition scraped_for :: "ustring \<Rightarrow> event \<Rightarrow> bool" where
  "scraped_for st ev =
     (case ev of Result r \<Rightarrow> status r \<noteq> status_free \<and> search_term r = st | _ \<Rightarrow> True)"

definition row_for :: "ustring \<Rightarrow> event \<Rightarrow> bool" where
  "row_for name ev = (case ev of Result r \<Rightarrow> search_term r = name | _ \<Rightarrow> True)"

definition no_page_failure :: "attempt \<Rightarrow> bool" where
  "no_page_failure a =
     (case reply a of
        Answer panel pages \<Rightarrow> list_all (\<lambda>p. case p of PageFails e \<Rightarrow> False | _ \<Rightarrow> True) pages
      | _ \<Rightarrow> True)"

subsection \<open>Runs that differ in the stored captcha code\<close>

text \<open>
  Two states of the worker that agree on \<open>is_running\<close>, on the conflict flag and, while
  the run is not cancelled, on the token held for the search attempts; and two results of
  a loop with the same events, the same rest of the script and states that agree so.
\<close>

definition alike :: "worker \<Rightarrow> worker \<Rightarrow> bool" where
  "alike w v \<longleftrightarrow>
     is_running w = is_running v \<and> found_any_conflict w = found_any_conflict v \<and>
     (if is_running w then current_captcha w = current_captcha v else True)"

definition alike_result ::
  "(event list \<times> worker \<times> attempt list) option \<Rightarrow> (event list \<times> worker \<times> attempt list) option \<Rightarrow> bool" where
  "alike_result x y =
     (case x of
        None \<Rightarrow> y = None
      | Some (evs, w, rest) \<Rightarrow>
          (case y of None \<Rightarrow> False | Some (evs', v, rest') \<Rightarrow> evs = evs' \<and> rest = rest' \<and> alike w v))"

subsection \<open>Sample replies\<close>

text \<open>
  Inputs on which the model is run below: a results panel with the marker of an empty
  result, the text of an alert about a wrong security code, an attempt during which nothing
  else happens (its captcha, if asked for, is answered by the operator with the code \<open>7\<close>),
  and a result page with one link that opens and is read, followed by a next page.
\<close>

definition none_found :: ustring where
  "none_found = [1585, 1705, 1608, 1585, 1583, 1740, 32, 1740, 1575, 1601, 1578, 32, 1606, 1588, 1583]"

definition wrong_code :: ustring where
  "wrong_code =
     [1705, 1583, 32, 1575, 1605, 1606, 1740, 1578, 1740, 32, 1575, 1588, 1578, 1576, 1575, 1607]"

definition quiet :: "reply \<Rightarrow> attempt" where
  "quiet r = \<lparr>reply = r, stop_during = False, recaptcha = OperatorSubmits [55], stop_after = False\<rparr>"

definition one_hit :: page where
  "one_hit = Page False 1 [(Opened (Some [65, 66]) (Fields [49] [50] [51]), False)] True False"

section \<open>Properties of the text processor\<close>

subsection \<open>Auxiliary facts\<close>

lemma split_acc_nonempty: "[] \<notin> set (split_acc cur s)"
  by (induction s arbitrary: cur) auto

lemma py_join_nonempty: "ws \<noteq> [] \<Longrightarrow> [] \<notin> set ws \<Longrightarrow> py_join sep ws \<noteq> []"
  by (induction sep ws rule: py_join.induct) auto

lemma dropWhile_all: "\<forall>c\<in>set s. P c \<Longrightarrow> dropWhile P s = []"
  by (induction s) auto

lemma strip_spaces: "\<forall>c\<in>set s. is_space c \<Longrightarrow> py_strip s = []"
  by (simp add: py_strip_def dropWhile_all)

lemma set_iteration_insertion_order: "set_iteration insertion_order"
  by (simp add: set_iteration_def insertion_order_def)

lemma set_iteration_reversed_order: "set_iteration reversed_order"
  by (simp add: set_iteration_def reversed_order_def)

lemma extract_core_root_Nil: "extract_core_root [] = []"
  by (simp add: extract_core_root_def py_split_def)

lemma set_analyze:
  "set_iteration enum \<Longrightarrow> set (fst (analyze_name enum isw raw)) = set (inserted enum isw raw)"
  by (simp add: analyze_name_def set_iteration_def)

lemma distinct_analyze:
  "set_iteration enum \<Longrightarrow> distinct (fst (analyze_name enum isw raw))"
  by (simp add: analyze_name_def set_iteration_def)

text \<open>Sample inputs, evaluated.\<close>

lemma all_stop_words_example:
  "filter (\<lambda>w. w \<notin> set stop_words)
     (py_split [1588, 1585, 1705, 1578, 32, 1578, 1608, 1587, 1593, 1607]) = []"
  by (simp add: py_split_def is_space_def stop_words_def)

lemma persian_part_example:
  "persian_part [33, 33, 33, 32, 40, 65, 112, 112, 108, 101, 41] = [33, 33, 33]"
  by (simp add: persian_part_def py_remove_def py_strip_def is_space_def)

lemma core_root_zzz: "core_root word_char [1586, 1586, 1586] = [1586, 1586, 1586]"
  by (simp add: core_root_def clean_name_def persian_part_def re_sub_nonword_def word_char_def
      py_strip_def is_space_def extract_core_root_def py_split_def stop_words_def)

lemma core_root_long:
  "core_root word_char [97, 98, 99, 100, 101, 102, 103, 104, 105, 106, 107, 108, 109, 110, 111]
     = [97, 98, 99, 100, 101, 102, 103, 104, 105, 106, 107, 108, 109, 110, 111]"
  by (simp add: core_root_def clean_name_def persian_part_def re_sub_nonword_def word_char_def
      py_strip_def is_space_def extract_core_root_def py_split_def stop_words_def)

subsection \<open>Core-root extraction\<close>

text \<open>
  C5 as stated: for every input string, core-root extraction returns a non-empty string.
  It fails at the empty string, which has no token: the fallback returns the input, and
  the input is empty.
\<close>

theorem core_root_empty_input: "\<not> extract_core_root [] \<noteq> []"
  by (simp add: extract_core_root_def py_split_def)

text \<open>
  C5, amended: for every non-empty input string, core-root extraction returns a non-empty
  string; when removing the stop-word tokens leaves no token it returns the unmodified
  input, and otherwise the remaining tokens joined by single spaces.
\<close>

theorem core_root_nonempty:
  "s \<noteq> [] \<Longrightarrow>
     extract_core_root s \<noteq> [] \<and>
     (if filter (\<lambda>w. w \<notin> set stop_words) (py_split s) = []
      then extract_core_root s = s
      else extract_core_root s = py_join [32] (filter (\<lambda>w. w \<notin> set stop_words) (py_split s)))"
proof -
  assume ne: "s \<noteq> []"
  let ?core = "filter (\<lambda>w. w \<notin> set stop_words) (py_split s)"
  have tokens: "[] \<notin> set ?core"
    using split_acc_nonempty [of "[]" s] by (simp add: py_split_def)
  show ?thesis
  proof (cases "?core = []")
    case True
    with ne show ?thesis by (simp add: extract_core_root_def)
  next
    case False
    then have "py_join [32] ?core \<noteq> []" using tokens by (rule py_join_nonempty)
    with False show ?thesis by (simp add: extract_core_root_def)
  qed
qed

text \<open>The input of the source's comment, two stop words: the input comes back.\<close>

theorem core_root_nonempty_witness:
  "[1588, 1585, 1705, 1578, 32, 1578, 1608, 1587, 1593, 1607] \<noteq> ([]::nat list) \<and>
   extract_core_root [1588, 1585, 1705, 1578, 32, 1578, 1608, 1587, 1593, 1607]
     = [1588, 1585, 1705, 1578, 32, 1578, 1608, 1587, 1593, 1607]"
  using core_root_nonempty [of "[1588, 1585, 1705, 1578, 32, 1578, 1608, 1587, 1593, 1607]"]
    all_stop_words_example
  by simp

subsection \<open>Inputs without a word character\<close>

text \<open>
  C10: when the text outside the parenthesised segment consists only of punctuation,
  symbols and white space, the clean name is empty, core-root extraction returns the empty
  string, and the empty string is a member of the variant set returned by the analysis.
\<close>

theorem punctuation_only_gives_empty_variant:
  assumes "set_iteration enum"
    and "\<forall>c\<in>set (persian_part raw). \<not> isw c \<or> is_space c"
  shows "clean_name isw raw = [] \<and> extract_core_root (clean_name isw raw) = [] \<and>
         [] \<in> set (fst (analyze_name enum isw raw))"
proof -
  have "\<forall>c\<in>set (re_sub_nonword isw (persian_part raw)). is_space c"
    using assms(2) by (auto simp: re_sub_nonword_def)
  then have clean: "clean_name isw raw = []"
    unfolding clean_name_def by (rule strip_spaces)
  then have root: "extract_core_root (clean_name isw raw) = []"
    by (simp add: extract_core_root_Nil)
  have "clean_name isw raw \<in> set (inserted enum isw raw)"
    by (simp add: inserted_def)
  then have "[] \<in> set (fst (analyze_name enum isw raw))"
    using clean set_analyze [OF assms(1)] by simp
  with clean root show ?thesis by simp
qed

text \<open>The input \<open>!!! (Apple)\<close>.\<close>

theorem punctuation_only_witness:
  "set_iteration (insertion_order :: ustring list \<Rightarrow> ustring list) \<and>
   persian_part [33, 33, 33, 32, 40, 65, 112, 112, 108, 101, 41] = [33, 33, 33] \<and>
   clean_name word_char [33, 33, 33, 32, 40, 65, 112, 112, 108, 101, 41] = [] \<and>
   extract_core_root (clean_name word_char [33, 33, 33, 32, 40, 65, 112, 112, 108, 101, 41]) = [] \<and>
   [] \<in> set (fst (analyze_name insertion_order word_char
                   [33, 33, 33, 32, 40, 65, 112, 112, 108, 101, 41]))"
proof -
  have h: "\<forall>c\<in>set (persian_part [33, 33, 33, 32, 40, 65, 112, 112, 108, 101, 41]).
             \<not> word_char c \<or> is_space c"
    by (simp add: persian_part_example word_char_def)
  show ?thesis
    using punctuation_only_gives_empty_variant [OF set_iteration_insertion_order h]
      set_iteration_insertion_order persian_part_example
    by blast
qed

subsection \<open>The variant set\<close>

text \<open>
  C4: when the core root has 15 characters or more, no confusable expansion is made, and
  the variant set is exactly the translation (if any), the clean name, the core root
  (when it differs from the clean name) and the transliteration of the core root.
\<close>

theorem long_root_skips_expansion:
  assumes "set_iteration enum" and "15 \<le> length (core_root isw raw)"
  shows "confusable_variants enum (core_root isw raw) = [] \<and>
         set (fst (analyze_name enum isw raw)) =
           (case translation raw of None \<Rightarrow> {} | Some t \<Rightarrow> {t})
           \<union> {clean_name isw raw}
           \<union> (if core_root isw raw \<noteq> clean_name isw raw then {core_root isw raw} else {})
           \<union> {fingilish (core_root isw raw)}"
proof -
  have none: "confusable_variants enum (core_root isw raw) = []"
    using assms(2) by (simp add: confusable_variants_def)
  have "set (inserted enum isw raw) =
           (case translation raw of None \<Rightarrow> {} | Some t \<Rightarrow> {t})
           \<union> {clean_name isw raw}
           \<union> (if core_root isw raw \<noteq> clean_name isw raw then {core_root isw raw} else {})
           \<union> {fingilish (core_root isw raw)}"
    unfolding inserted_def none by (auto split: option.split)
  with none show ?thesis using set_analyze [OF assms(1)] by simp
qed

text \<open>A root of fifteen letters, \<open>abcdefghijklmno\<close>.\<close>

theorem long_root_witness:
  "set_iteration (insertion_order :: ustring list \<Rightarrow> ustring list) \<and>
   15 \<le> length (core_root word_char
                 [97, 98, 99, 100, 101, 102, 103, 104, 105, 106, 107, 108, 109, 110, 111]) \<and>
   confusable_variants insertion_order (core_root word_char
       [97, 98, 99, 100, 101, 102, 103, 104, 105, 106, 107, 108, 109, 110, 111]) = []"
proof -
  have h: "15 \<le> length (core_root word_char
                 [97, 98, 99, 100, 101, 102, 103, 104, 105, 106, 107, 108, 109, 110, 111])"
    by (simp add: core_root_long)
  show ?thesis
    using long_root_skips_expansion [OF set_iteration_insertion_order h] h
      set_iteration_insertion_order
    by blast
qed

text \<open>
  C6: the variant set returned by the analysis contains the clean name and the
  transliteration of the core root, and no string twice.
\<close>

theorem variant_set_members:
  assumes "set_iteration enum"
  shows "clean_name isw raw \<in> set (fst (analyze_name enum isw raw)) \<and>
         fingilish (core_root isw raw) \<in> set (fst (analyze_name enum isw raw)) \<and>
         distinct (fst (analyze_name enum isw raw))"
proof -
  have "clean_name isw raw \<in> set (inserted enum isw raw)"
    and "fingilish (core_root isw raw) \<in> set (inserted enum isw raw)"
    by (simp_all add: inserted_def)
  then show ?thesis
    using set_analyze [OF assms] distinct_analyze [OF assms] by simp
qed

theorem variant_set_members_witness:
  "set_iteration (reversed_order :: ustring list \<Rightarrow> ustring list) \<and>
   clean_name word_char [1586, 1586, 1586]
     \<in> set (fst (analyze_name reversed_order word_char [1586, 1586, 1586])) \<and>
   fingilish (core_root word_char [1586, 1586, 1586])
     \<in> set (fst (analyze_name reversed_order word_char [1586, 1586, 1586])) \<and>
   distinct (fst (analyze_name reversed_order word_char [1586, 1586, 1586]))"
  using variant_set_members [OF set_iteration_reversed_order, of word_char "[1586, 1586, 1586]"]
    set_iteration_reversed_order
  by blast

subsection \<open>Confusable expansion\<close>

text \<open>
  C3 as stated: when the product has 32 members or more, the members added are the first 15
  in the order of the product. The source takes the first 15 of \<open>list(set(...))\<close>, the
  order in which the set iterates. For the root of three letters zain (64 members) and a
  set that iterates in the reverse order of insertion, the last member of the product is
  added, which is not among its first 15.
\<close>

theorem first_fifteen_counterexample:
  "set_iteration (reversed_order :: ustring list \<Rightarrow> ustring list) \<and>
   length [1586, 1586, 1586 :: nat] < 15 \<and>
   \<not> length (remdups (itertools_product (options [1586, 1586, 1586]))) < 32 \<and>
   [1592, 1592, 1592] \<in> set (confusable_variants reversed_order [1586, 1586, 1586]) \<and>
   [1592, 1592, 1592] \<notin> set (take 15 (remdups (itertools_product (options [1586, 1586, 1586]))))"
  by (simp add: set_iteration_reversed_order confusable_variants_def generate_permutations_def
      reversed_order_def options_def option_of_def all_subs_def phonetic_groups_def visual_groups_def)

text \<open>
  C3, amended: for a core root of length below 15, the expansion is the Cartesian product
  of the alternatives of the characters, without duplicates; when it has fewer than 32
  members all of them are added to the variant set, and otherwise exactly 15 distinct
  members of the product are added, the first 15 in the iteration order of the set that
  removed the duplicates.
\<close>

theorem confusable_expansion_bounded:
  assumes "set_iteration enum" and "length (core_root isw raw) < 15"
  shows "set (generate_permutations enum (core_root isw raw))
           = set (itertools_product (options (core_root isw raw))) \<and>
         distinct (generate_permutations enum (core_root isw raw)) \<and>
         (if length (generate_permutations enum (core_root isw raw)) < 32
          then set (confusable_variants enum (core_root isw raw))
                 = set (itertools_product (options (core_root isw raw)))
          else confusable_variants enum (core_root isw raw)
                 = take 15 (generate_permutations enum (core_root isw raw)) \<and>
               length (confusable_variants enum (core_root isw raw)) = 15 \<and>
               distinct (confusable_variants enum (core_root isw raw)) \<and>
               set (confusable_variants enum (core_root isw raw))
                 \<subseteq> set (itertools_product (options (core_root isw raw)))) \<and>
         set (confusable_variants enum (core_root isw raw)) \<subseteq> set (fst (analyze_name enum isw raw))"
proof -
  let ?root = "core_root isw raw"
  let ?perms = "generate_permutations enum ?root"
  have s: "set ?perms = set (itertools_product (options ?root))" and d: "distinct ?perms"
    using assms(1) by (simp_all add: generate_permutations_def set_iteration_def)
  have cv: "confusable_variants enum ?root = (if length ?perms < 32 then ?perms else take 15 ?perms)"
    using assms(2) by (simp add: confusable_variants_def)
  have sub: "set (take 15 ?perms) \<subseteq> set (itertools_product (options ?root))"
    using set_take_subset [of 15 ?perms] s by simp
  have added: "set (confusable_variants enum ?root) \<subseteq> set (fst (analyze_name enum isw raw))"
    using set_analyze [OF assms(1)] by (auto simp: inserted_def)
  show ?thesis
  proof (cases "length ?perms < 32")
    case True
    with s d cv added show ?thesis by simp
  next
    case False
    then have "length (take 15 ?perms) = 15" by simp
    with False s d cv sub added show ?thesis by simp
  qed
qed

theorem confusable_expansion_witness:
  "set_iteration (reversed_order :: ustring list \<Rightarrow> ustring list) \<and>
   length (core_root word_char [1586, 1586, 1586]) < 15 \<and>
   distinct (generate_permutations reversed_order (core_root word_char [1586, 1586, 1586])) \<and>
   set (confusable_variants reversed_order (core_root word_char [1586, 1586, 1586]))
     \<subseteq> set (fst (analyze_name reversed_order word_char [1586, 1586, 1586]))"
proof -
  have h: "length (core_root word_char [1586, 1586, 1586]) < 15"
    by (simp add: core_root_zzz)
  show ?thesis
    using confusable_expansion_bounded [OF set_iteration_reversed_order h] h
      set_iteration_reversed_order
    by blast
qed

section \<open>Properties of the worker\<close>

subsection \<open>Auxiliary facts\<close>

lemma status_distinct: "status_conflict \<noteq> status_free" "status_error \<noteq> status_free"
  by (simp_all add: status_conflict_def status_error_def status_free_def)

lemma extract_data_scraped: "list_all (scraped_for st) (extract_data st var title d)"
  by (cases d) (simp_all add: extract_data_def scraped_for_def status_distinct)

lemma visit_link_scraped: "list_all (scraped_for st) (visit_link st var l)"
  by (cases l) (simp_all add: visit_link_def extract_data_scraped)

lemma scrape_links_scraped:
  "scrape_links st var k ls w = (ret, evs, w') \<Longrightarrow> list_all (scraped_for st) evs"
proof (induction st var k ls w arbitrary: ret evs w' rule: scrape_links.induct)
  case (1 st var ls w)
  then show ?case by simp
next
  case (2 st var k ls w)
  show ?case
  proof (cases "is_running w")
    case False
    with "2.prems" show ?thesis by simp
  next
    case True
    show ?thesis
    proof (cases ls)
      case Nil
      with True "2.prems" show ?thesis by simp
    next
      case (Cons p rest)
      obtain l stopped where p: "p = (l, stopped)" by (cases p)
      obtain ret1 evs1 w1 where r: "scrape_links st var k rest (arrive stopped w) = (ret1, evs1, w1)"
        by (cases "scrape_links st var k rest (arrive stopped w)")
      have "list_all (scraped_for st) evs1"
        using "2.IH" [OF _ Cons _ r] True p by simp
      moreover have "evs = visit_link st var l @ evs1"
        using "2.prems" True Cons p r by simp
      ultimately show ?thesis by (simp add: visit_link_scraped)
    qed
  qed
qed


lemma arrive_found [simp]: "found_any_conflict (arrive b w) = found_any_conflict w"
  by (simp add: arrive_def stop_def)

lemma scrape_links_found:
  "scrape_links st var k ls w = (ret, evs, w') \<Longrightarrow> found_any_conflict w' = found_any_conflict w"
  by (induction st var k ls w arbitrary: ret evs w' rule: scrape_links.induct)
     (auto split: if_splits list.splits prod.splits)

lemma scrape_all_pages_scraped:
  "scrape_all_pages st var ps seen w = (r, evs, w') \<Longrightarrow> list_all (scraped_for st) evs"
  by (induction st var ps seen w arbitrary: r evs w' rule: scrape_all_pages.induct)
     (auto split: if_splits prod.splits dest: scrape_links_scraped)

lemma scrape_all_pages_found:
  "scrape_all_pages st var ps seen w = (r, evs, w') \<Longrightarrow> found_any_conflict w' = found_any_conflict w"
  by (induction st var ps seen w arbitrary: r evs w' rule: scrape_all_pages.induct)
     (auto split: if_splits prod.splits dest: scrape_links_found)

lemma scrape_all_pages_count:
  "scrape_all_pages st var ps seen w = (r, evs, w') \<Longrightarrow>
   list_all (\<lambda>p. case p of PageFails e \<Rightarrow> False | _ \<Rightarrow> True) ps \<Longrightarrow>
   \<exists>t. r = Inr t \<and> seen \<le> t \<and> (evs \<noteq> [] \<longrightarrow> 0 < t)"
proof (induction st var ps seen w arbitrary: r evs w' rule: scrape_all_pages.induct)
  case (1 st var seen w)
  then show ?case by auto
next
  case (2 st var e ps seen w)
  then show ?case by simp
next
  case (3 st var sl n ls nx sn ps seen w)
  show ?case
  proof (cases "is_running w \<and> n \<noteq> 0")
    case False
    with "3.prems" show ?thesis by (auto split: if_splits)
  next
    case True
    obtain ret evs1 w1 where l: "scrape_links st var n ls (arrive sl w) = (ret, evs1, w1)"
      by (cases "scrape_links st var n ls (arrive sl w)")
    show ?thesis
    proof (cases "\<not> ret \<and> nx")
      case False
      with True l "3.prems" show ?thesis by (auto split: if_splits)
    next
      case turn: True
      obtain r2 evs2 w2 where p: "scrape_all_pages st var ps (seen + n) (arrive sn w1) = (r2, evs2, w2)"
        by (cases "scrape_all_pages st var ps (seen + n) (arrive sn w1)")
      have "\<exists>t. r2 = Inr t \<and> seen + n \<le> t \<and> (evs2 \<noteq> [] \<longrightarrow> 0 < t)"
        using "3.IH" [OF _ _ l [symmetric] _ _ _ p] True turn "3.prems"(2) by simp
      moreover have "r = r2" using "3.prems"(1) True turn l p by simp
      ultimately show ?thesis using True by auto
    qed
  qed
qed

lemma get_captcha_image_events:
  "get_captcha_image c w = (tok, evs, w') \<Longrightarrow>
   list_all (scraped_for st) evs \<and> \<not> list_ex is_scraped evs \<and>
   found_any_conflict w' = found_any_conflict w"
  by (cases c)
     (auto simp: captcha_events_def scraped_for_def is_scraped_def Let_def receive_captcha_def stop_def
           split: if_splits)

lemma on_exception_events:
  "on_exception e c w = (evs, w') \<Longrightarrow>
   list_all (scraped_for st) evs \<and> \<not> list_ex is_scraped evs \<and>
   found_any_conflict w' = found_any_conflict w"
  using get_captcha_image_events [of c w _ _ _ st]
  by (auto simp: on_exception_def scraped_for_def is_scraped_def split: prod.splits)

lemma on_captcha_alert_events:
  "on_captcha_alert c w = (evs, w') \<Longrightarrow>
   list_all (scraped_for st) evs \<and> \<not> list_ex is_scraped evs \<and>
   found_any_conflict w' = found_any_conflict w"
  using get_captcha_image_events [of c w _ _ _ st]
  by (auto simp: on_captcha_alert_def scraped_for_def is_scraped_def split: prod.splits)


lemma submit_scraped [simp]: "scraped_for st (Browser b)" "scraped_for st (Log l)"
  "\<not> is_scraped (Browser b)" "\<not> is_scraped (Log l)"
  by (simp_all add: scraped_for_def is_scraped_def)

lemma scraped_nonempty: "list_ex is_scraped evs \<Longrightarrow> evs \<noteq> []"
  by auto

lemma attempt_once_events:
  assumes "attempt_once classes name var a w = (oc, evs, w1)"
  shows "list_all (scraped_for name) evs"
    and "found_any_conflict w \<Longrightarrow> found_any_conflict w1"
    and "no_page_failure a \<Longrightarrow> list_ex is_scraped evs \<Longrightarrow> found_any_conflict w1"
proof -
  let ?w1 = "arrive (stop_during a) w"
  have all: "list_all (scraped_for name) evs \<and>
        (found_any_conflict w \<longrightarrow> found_any_conflict w1) \<and>
        (no_page_failure a \<longrightarrow> list_ex is_scraped evs \<longrightarrow> found_any_conflict w1)"
  proof (cases "reply a")
    case (Raises e)
    obtain evs2 w2 where h: "on_exception e (recaptcha a) ?w1 = (evs2, w2)"
      by (cases "on_exception e (recaptcha a) ?w1")
    from on_exception_events [OF h, of name] assms Raises h show ?thesis
      by (auto simp: attempt_once_def Let_def)
  next
    case (Alert err)
    obtain evs2 w2 where h: "on_captcha_alert (recaptcha a) ?w1 = (evs2, w2)"
      by (cases "on_captcha_alert (recaptcha a) ?w1")
    from on_captcha_alert_events [OF h, of name] assms Alert h show ?thesis
      by (auto simp: attempt_once_def Let_def split: if_splits)
  next
    case (Answer panel pages)
    show ?thesis
    proof (cases "no_record_found panel")
      case True
      with assms Answer show ?thesis by (auto simp: attempt_once_def Let_def)
    next
      case False
      obtain r evs2 w2 where sc: "scrape_all_pages name var pages 0 ?w1 = (r, evs2, w2)"
        by (cases "scrape_all_pages name var pages 0 ?w1")
      note ev = scrape_all_pages_scraped [OF sc] and fo = scrape_all_pages_found [OF sc]
      show ?thesis
      proof (cases r)
        case (Inr items)
        have "no_page_failure a \<Longrightarrow> list_ex is_scraped evs2 \<Longrightarrow> 0 < items"
          using scrape_all_pages_count [OF sc] Answer Inr scraped_nonempty [of evs2]
          by (auto simp: no_page_failure_def)
        with assms Answer False sc Inr ev fo show ?thesis
          by (auto simp: attempt_once_def Let_def split: if_splits)
      next
        case (Inl e)
        obtain evs3 w3 where h: "on_exception e (recaptcha a) w2 = (evs3, w3)"
          by (cases "on_exception e (recaptcha a) w2")
        have "\<not> no_page_failure a"
          using scrape_all_pages_count [OF sc] Answer Inl by (auto simp: no_page_failure_def)
        with on_exception_events [OF h, of name] assms Answer False sc Inl ev fo h show ?thesis
          by (auto simp: attempt_once_def Let_def)
      qed
    qed
  qed
  from all show "list_all (scraped_for name) evs"
    and "found_any_conflict w \<Longrightarrow> found_any_conflict w1"
    and "no_page_failure a \<Longrightarrow> list_ex is_scraped evs \<Longrightarrow> found_any_conflict w1"
    by simp_all
qed

lemma search_variant_events:
  "search_variant classes name var as w = Some (evs, w', rest) \<Longrightarrow>
   list_all (scraped_for name) evs \<and>
   (found_any_conflict w \<longrightarrow> found_any_conflict w') \<and>
   (list_all no_page_failure as \<longrightarrow> list_ex is_scraped evs \<longrightarrow> found_any_conflict w') \<and>
   (list_all no_page_failure as \<longrightarrow> list_all no_page_failure rest)"
proof (induction classes name var as w arbitrary: evs w' rest rule: search_variant.induct)
  case (1 classes name var w)
  then show ?case by (auto split: if_splits)
next
  case (2 classes name var a as w)
  show ?case
  proof (cases "is_running w")
    case False
    with "2.prems" show ?thesis by auto
  next
    case True
    obtain oc evs1 w1 where at: "attempt_once classes name var a w = (oc, evs1, w1)"
      by (cases "attempt_once classes name var a w")
    note a1 = attempt_once_events [OF at]
    show ?thesis
    proof (cases oc)
      case Leave
      with "2.prems" True at a1 show ?thesis by auto
    next
      case Retry
      obtain evs2 where rec: "search_variant classes name var as w1 = Some (evs2, w', rest)"
        and evs: "evs = evs1 @ evs2"
        using "2.prems" True at Retry by (auto split: option.splits)
      from "2.IH" [OF _ at [symmetric] _ _ rec] True Retry
      have ih: "list_all (scraped_for name) evs2 \<and>
         (found_any_conflict w1 \<longrightarrow> found_any_conflict w') \<and>
         (list_all no_page_failure as \<longrightarrow> list_ex is_scraped evs2 \<longrightarrow> found_any_conflict w') \<and>
         (list_all no_page_failure as \<longrightarrow> list_all no_page_failure rest)"
        by simp
      with a1 evs show ?thesis by auto
    qed
  qed
qed

lemma search_variants_events:
  "search_variants classes name vars as w = Some (evs, w', rest) \<Longrightarrow>
   list_all (scraped_for name) evs \<and>
   (found_any_conflict w \<longrightarrow> found_any_conflict w') \<and>
   (list_all no_page_failure as \<longrightarrow> list_ex is_scraped evs \<longrightarrow> found_any_conflict w')"
proof (induction classes name vars as w arbitrary: evs w' rest rule: search_variants.induct)
  case (1 classes name as w)
  then show ?case by auto
next
  case (2 classes name var vars as w)
  show ?case
  proof (cases "is_running w")
    case False
    with "2.prems" show ?thesis by auto
  next
    case True
    obtain evs1 w1 as1 evs2 where v: "search_variant classes name var as w = Some (evs1, w1, as1)"
      and vs: "search_variants classes name vars as1 w1 = Some (evs2, w', rest)"
      and evs: "evs = evs1 @ evs2"
      using "2.prems" True by (auto split: option.splits)
    note h1 = search_variant_events [OF v]
    from "2.IH" [OF _ v _ _ vs] True
    have ih: "list_all (scraped_for name) evs2 \<and>
       (found_any_conflict w1 \<longrightarrow> found_any_conflict w') \<and>
       (list_all no_page_failure as1 \<longrightarrow> list_ex is_scraped evs2 \<longrightarrow> found_any_conflict w')"
      by simp
    with h1 evs show ?thesis by auto
  qed
qed

lemma scraped_for_not_summary: "list_all (scraped_for name) evs \<Longrightarrow> filter is_summary evs = []"
  by (induction evs) (auto simp: scraped_for_def is_summary_def split: event.splits)

lemma scraped_for_row_for: "list_all (scraped_for name) evs \<Longrightarrow> list_all (row_for name) evs"
  by (induction evs) (auto simp: scraped_for_def row_for_def split: event.splits)

text \<open>The text processor and the worker on sample inputs, evaluated.\<close>

lemmas text_defs = analyze_name_def inserted_def translation_def core_root_def clean_name_def
  persian_part_def re_sub_nonword_def word_char_def py_strip_def is_space_def
  extract_core_root_def py_split_def stop_words_def confusable_variants_def
  generate_permutations_def options_def option_of_def all_subs_def phonetic_groups_def
  visual_groups_def fingilish_def f_to_e_map_def insertion_order_def

lemma analyze_ab:
  "analyze_name insertion_order word_char [97, 98] =
     ([[97, 98]], \<lparr>layer3_translation = None, layer4_core_root = [97, 98], layer3_fingilish = [97, 98]\<rparr>)"
  by (simp add: text_defs)

lemma analyze_zain:
  "analyze_name insertion_order word_char [1586] =
     ([[1586], [1584], [1590], [1592], [122]],
      \<lparr>layer3_translation = None, layer4_core_root = [1586], layer3_fingilish = [122]\<rparr>)"
  by (simp add: text_defs)

lemma read_names_ab: "read_names [[97, 98, 10]] = [[97, 98]]"
  by (simp add: read_names_def py_strip_def is_space_def)

lemma read_names_zain: "read_names [[1586, 10]] = [[1586]]"
  by (simp add: read_names_def py_strip_def is_space_def)

lemma none_found_panel: "no_record_found none_found"
  by (simp add: no_record_found_def none_found_def)

lemma empty_panel: "\<not> no_record_found []"
  by (simp add: no_record_found_def)

lemma wrong_code_alert: "is_captcha_alert wrong_code"
  by (simp add: is_captcha_alert_def wrong_code_def)

lemma other_alert: "\<not> is_captcha_alert [63]"
  by (simp add: is_captcha_alert_def)

lemmas run_defs = run_def init_worker_def stop_def captcha_events_def receive_captcha_def
  process_name_def attempt_once_def quiet_def arrive_def visit_link_def extract_data_def
  on_exception_def on_captcha_alert_def one_hit_def

lemma process_name_hit:
  "process_name insertion_order word_char [53] 0 1 [97, 98]
       [quiet (Answer [] [one_hit])] (init_worker\<lparr>current_captcha := Some [52]\<rparr>) =
     Some ([Progress 1 1, Log (LogAnalyzing [97, 98]), Log (LogCoreRoot [97, 98]),
            Log (LogVariantCount 1), Browser (Submit [97, 98] [53] (Some [52])),
            Result \<lparr>search_term = [97, 98], variant = [97, 98], status = status_conflict,
                    brand = [65, 66], reg_no = [49], owner = [50], goods = [51]\<rparr>],
           init_worker\<lparr>current_captcha := Some [52], found_any_conflict := True\<rparr>, [])"
  by (simp add: run_defs analyze_ab empty_panel is_space_def py_strip_def)

subsection \<open>The summary row of a name\<close>

text \<open>
  C1 as stated: for every run and every name of the input, exactly one summary row is
  emitted for the name if and only if no variant of it produced a conflict row, and a name
  with scraped rows receives no summary. Three runs over the one name \<open>ab\<close> contradict
  it. Cancelled while the first captcha is awaited, the run emits neither a scraped row nor
  a summary. When the result page lists one link and visiting it raises before the data
  are extracted, the link is counted, the conflict flag is set, and again neither kind of
  row is emitted. When listing the links of the second page raises after a row was scraped
  from the first, the attempt is repeated, and an empty result then gives a summary after
  the scraped row.
\<close>

theorem summary_rule_counterexample:
  "(case run insertion_order word_char [53] (Inr [[97, 98, 10]]) OperatorStops [] init_worker of
      None \<Rightarrow> False
    | Some (evs, w, rest) \<Rightarrow>
        [97, 98] \<in> set (read_names [[97, 98, 10]]) \<and> \<not> list_ex is_scraped evs \<and>
        \<not> list_ex is_summary evs) \<and>
   (case run insertion_order word_char [53] (Inr [[97, 98, 10]]) (OperatorSubmits [52])
           [quiet (Answer [] [Page False 1 [(NotOpened, False)] False False])] init_worker of
      None \<Rightarrow> False
    | Some (evs, w, rest) \<Rightarrow>
        is_running w \<and> \<not> list_ex is_scraped evs \<and> \<not> list_ex is_summary evs) \<and>
   (case run insertion_order word_char [53] (Inr [[97, 98, 10]]) (OperatorSubmits [52])
           [quiet (Answer [] [one_hit, PageFails [101]]), quiet (Answer none_found [])] init_worker of
      None \<Rightarrow> False
    | Some (evs, w, rest) \<Rightarrow>
        is_running w \<and> list_ex is_scraped evs \<and> list_ex is_summary evs)"
  by (simp add: run_defs read_names_ab analyze_ab empty_panel none_found_panel is_space_def
      py_strip_def is_scraped_def is_summary_def summary_row_def status_distinct)


text \<open>
  C1, amended: for every name whose pass of the loop over the names is entered and
  completes with the run not cancelled, at most one summary row is emitted in that pass,
  and it is emitted exactly when the conflict flag of the name is still unset at the end,
  that is, when no search attempt of the name ended with a positive count of result links;
  every row of the pass carries the name as search term; and, when no listing of result
  links raises, a pass in which a row was scraped emits no summary.
\<close>

theorem summary_per_name:
  assumes "process_name enum isw classes idx n_names name as w = Some (evs, w', rest)"
    and "is_running w'"
  shows "length (filter is_summary evs) = (if found_any_conflict w' then 0 else 1) \<and>
         list_all (row_for name) evs \<and>
         \<not> (list_all no_page_failure as \<and> list_ex is_scraped evs \<and> list_ex is_summary evs)"
proof -
  obtain variants report where an: "analyze_name enum isw name = (variants, report)"
    by (cases "analyze_name enum isw name")
  let ?head = "[Progress (idx + 1) n_names, Log (LogAnalyzing name),
                Log (LogCoreRoot (layer4_core_root report)), Log (LogVariantCount (length variants))]"
  let ?tail = "if \<not> found_any_conflict w' then [Result (summary_row name)] else []"
  obtain evs0 where sv: "search_variants classes name variants as (w\<lparr>found_any_conflict := False\<rparr>)
                           = Some (evs0, w', rest)"
    and evs: "evs = ?head @ evs0 @ ?tail"
    using assms(1) an by (auto simp: process_name_def split: option.splits)
  from search_variants_events [OF sv]
  have sc: "list_all (scraped_for name) evs0"
    and fl: "list_all no_page_failure as \<Longrightarrow> list_ex is_scraped evs0 \<Longrightarrow> found_any_conflict w'"
    by simp_all
  have count: "length (filter is_summary evs) = (if found_any_conflict w' then 0 else 1)"
    using evs scraped_for_not_summary [OF sc] by (simp add: is_summary_def summary_row_def)
  have rows: "list_all (row_for name) evs"
    using evs scraped_for_row_for [OF sc] by (simp add: row_for_def summary_row_def)
  have excl: "\<not> (list_all no_page_failure as \<and> list_ex is_scraped evs \<and> list_ex is_summary evs)"
  proof
    assume h: "list_all no_page_failure as \<and> list_ex is_scraped evs \<and> list_ex is_summary evs"
    then have "filter is_summary evs \<noteq> []" by (auto simp: list_ex_iff filter_empty_conv)
    with count have nf: "\<not> found_any_conflict w'" by (auto split: if_splits)
    from h evs have "list_ex is_scraped evs0"
      by (auto simp: list_ex_iff is_scraped_def summary_row_def split: if_splits)
    with fl h nf show False by simp
  qed
  from count rows excl show ?thesis by simp
qed

text \<open>The name \<open>ab\<close> with one result, which is read: a conflict row and no summary.\<close>

theorem summary_per_name_witness:
  "process_name insertion_order word_char [53] 0 1 [97, 98]
       [quiet (Answer [] [one_hit])] (init_worker\<lparr>current_captcha := Some [52]\<rparr>) =
     Some ([Progress 1 1, Log (LogAnalyzing [97, 98]), Log (LogCoreRoot [97, 98]),
            Log (LogVariantCount 1), Browser (Submit [97, 98] [53] (Some [52])),
            Result \<lparr>search_term = [97, 98], variant = [97, 98], status = status_conflict,
                    brand = [65, 66], reg_no = [49], owner = [50], goods = [51]\<rparr>],
           init_worker\<lparr>current_captcha := Some [52], found_any_conflict := True\<rparr>, []) \<and>
   length (filter is_summary
     [Progress 1 1, Log (LogAnalyzing [97, 98]), Log (LogCoreRoot [97, 98]),
      Log (LogVariantCount 1), Browser (Submit [97, 98] [53] (Some [52])),
      Result \<lparr>search_term = [97, 98], variant = [97, 98], status = status_conflict,
              brand = [65, 66], reg_no = [49], owner = [50], goods = [51]\<rparr>]) = 0 \<and>
   list_all no_page_failure [quiet (Answer [] [one_hit])]"
proof -
  have r: "is_running (init_worker\<lparr>current_captcha := Some [52], found_any_conflict := True\<rparr>)"
    by (simp add: init_worker_def)
  show ?thesis
    using summary_per_name [OF process_name_hit r] process_name_hit
    by (simp add: init_worker_def no_page_failure_def quiet_def one_hit_def)
qed

subsection \<open>Cancellation\<close>

text \<open>
  Once \<open>is_running\<close> is unset, the loops over the pages, over the attempts, over the
  variants and over the names return at their next check, with no event and without
  consulting the environment.
\<close>

lemma stopped_scrape_all_pages:
  "\<not> is_running w \<Longrightarrow> scrape_all_pages st var ps seen w = (Inr seen, [], w)"
  by (induction st var ps seen w rule: scrape_all_pages.induct) simp_all

lemma stopped_search_variant:
  "\<not> is_running w \<Longrightarrow> search_variant classes name var as w = Some ([], w, as)"
  by (cases as) simp_all

lemma stopped_search_variants:
  "\<not> is_running w \<Longrightarrow> search_variants classes name vars as w = Some ([], w, as)"
  by (cases vars) simp_all

lemma stopped_process_names:
  "\<not> is_running w \<Longrightarrow> process_names enum isw classes idx n_names names as w = Some ([], w, as)"
  by (cases names) simp_all

text \<open>
  C2: after a cancellation while a name is processed, no further row of any kind is
  emitted for that name. The run below evaluates the source on a file with the one name
  zain, which has five variants. The operator stops the run while the first variant is
  submitted; the site answers that no record was found. The loop over the variants ends at
  its next check, with four variants never searched, and the final report of the name is
  then emitted: the row of status free (confirmed), after the cancellation.
\<close>

theorem summary_after_stop:
  "run insertion_order word_char [53] (Inr [[1586, 10]]) (OperatorSubmits [52])
       [\<lparr>reply = Answer none_found [], stop_during = True, recaptcha = OperatorStops,
          stop_after = False\<rparr>]
       init_worker =
     Some ([Browser SetupDriver, Browser GetSearchPage, Browser DismissNotices, CaptchaImage,
            Log LogCaptchaPrompt, Status WaitingForUser, Status Analyzing,
            Progress 1 1, Log (LogAnalyzing [1586]), Log (LogCoreRoot [1586]), Log (LogVariantCount 5),
            Browser (Submit [1586] [53] (Some [52])),
            Result (summary_row [1586]),
            Browser Quit, Finished],
           init_worker\<lparr>is_running := False, captcha_code := Some [52], current_captcha := Some [52]\<rparr>, [])"
  by (simp add: run_defs read_names_zain analyze_zain none_found_panel)

subsection \<open>An input file that cannot be read\<close>

text \<open>
  C7 as stated: the worker terminates without starting the browser session and without
  navigating. \<open>run\<close> starts the browser and opens the search page before it opens the
  file.
\<close>

theorem unreadable_file_counterexample:
  "(case run insertion_order word_char [53] (Inl [101]) (OperatorSubmits [52]) [] init_worker of
      None \<Rightarrow> False
    | Some (evs, w, rest) \<Rightarrow> Browser SetupDriver \<in> set evs \<and> Browser GetSearchPage \<in> set evs)"
  by (simp add: run_def)

text \<open>
  C7, amended: when the input file cannot be read, the browser has been started and the
  search page opened; the error is then logged and the worker terminates, without
  acquiring a captcha, without a search attempt and without emitting a row.
\<close>

theorem unreadable_file:
  "run enum isw classes (Inl e) first as w
     = Some ([Browser SetupDriver, Browser GetSearchPage, Log (LogFileError e)], w, as)"
  by (simp add: run_def)

subsection \<open>Alerts\<close>

text \<open>
  C8 as stated: after an alert about the captcha the variant is not abandoned and
  eventually yields a normal outcome. When the operator stops the run while the new captcha
  is awaited, the loop of the variant ends without a further attempt, and the reply
  prepared for the retry is left unused.
\<close>

theorem captcha_retry_counterexample:
  "search_variant [53] [97, 98] [97, 98]
       [\<lparr>reply = Alert wrong_code, stop_during = False, recaptcha = OperatorStops, stop_after = False\<rparr>,
        quiet (Answer none_found [])]
       (init_worker\<lparr>current_captcha := Some [52]\<rparr>) =
     Some ([Browser (Submit [97, 98] [53] (Some [52])), Log LogCaptchaExpired,
            Browser ClickCaptchaImage, CaptchaImage, Log LogCaptchaPrompt, Status WaitingForUser,
            Status Analyzing],
           init_worker\<lparr>is_running := False, waiting_for_captcha := True, current_captcha := None\<rparr>,
           [quiet (Answer none_found [])])"
  by (simp add: wrong_code_alert run_defs)

text \<open>
  C8, amended: for every search attempt, made while the run is not cancelled, that raises
  an alert: if the alert text indicates an invalid captcha, the worker logs it, clicks the
  captcha image, acquires a captcha token and goes on with the search loop of the same
  variant, holding that token; the variant is searched again unless the run has been
  cancelled meanwhile, and what the retry yields depends on the replies that follow. If
  the alert carries any other message, the message is logged and the variant is abandoned:
  no row is emitted for it and the conflict flag is unchanged.
\<close>

theorem alert_handling:
  assumes "is_running w" and "reply a = Alert err"
  shows "(case get_captcha_image (recaptcha a) (arrive (stop_during a) w) of
            (tok, cevs, wc) \<Rightarrow>
              if is_captcha_alert err
              then search_variant classes name var (a # as) w =
                     (case search_variant classes name var as (wc\<lparr>current_captcha := tok\<rparr>) of
                        None \<Rightarrow> None
                      | Some (evs', w2, rest) \<Rightarrow>
                          Some ([Browser (Submit var classes (current_captcha w)),
                                 Log LogCaptchaExpired, Browser ClickCaptchaImage] @ cevs @ evs',
                                w2, rest))
              else search_variant classes name var (a # as) w =
                     Some ([Browser (Submit var classes (current_captcha w)), Log (LogSiteMessage err)],
                           arrive (stop_during a) w, as))"
  using assms
  by (auto simp: attempt_once_def on_captcha_alert_def Let_def split: prod.splits option.splits)

text \<open>
  A wrong-code alert, the operator's new code \<open>7\<close>, and an empty result on the retry;
  and an alert with the text \<open>?\<close>.
\<close>

theorem alert_handling_witness:
  "search_variant [53] [97, 98] [97, 98] [quiet (Alert wrong_code), quiet (Answer none_found [])]
       (init_worker\<lparr>current_captcha := Some [52]\<rparr>) =
     Some ([Browser (Submit [97, 98] [53] (Some [52])), Log LogCaptchaExpired,
            Browser ClickCaptchaImage, CaptchaImage, Log LogCaptchaPrompt, Status WaitingForUser,
            Status Analyzing, Browser (Submit [97, 98] [53] (Some [55]))],
           init_worker\<lparr>captcha_code := Some [55], current_captcha := Some [55]\<rparr>, []) \<and>
   search_variant [53] [97, 98] [97, 98] [quiet (Alert [63]), quiet (Answer none_found [])]
       (init_worker\<lparr>current_captcha := Some [52]\<rparr>) =
     Some ([Browser (Submit [97, 98] [53] (Some [52])), Log (LogSiteMessage [63])],
           init_worker\<lparr>current_captcha := Some [52]\<rparr>, [quiet (Answer none_found [])])"
proof -
  have r: "is_running (init_worker\<lparr>current_captcha := Some [52]\<rparr>)"
    by (simp add: init_worker_def)
  have a1: "reply (quiet (Alert wrong_code)) = Alert wrong_code"
    and a2: "reply (quiet (Alert [63])) = Alert [63]"
    by (simp_all add: quiet_def)
  show ?thesis
    using alert_handling [OF r a1, of "[53]" "[97, 98]" "[97, 98]" "[quiet (Answer none_found [])]"]
      alert_handling [OF r a2, of "[53]" "[97, 98]" "[97, 98]" "[quiet (Answer none_found [])]"]
    by (simp add: wrong_code_alert other_alert run_defs none_found_panel)
qed

subsection \<open>A captcha code submitted when none is awaited\<close>

text \<open>
  The events of a run do not depend on the stored captcha code: \<open>get_captcha_image\<close>
  returns it unchanged only when the run is cancelled, and then no search follows.
\<close>

lemma alike_arrive: "alike w v \<Longrightarrow> alike (arrive b w) (arrive b v)"
  by (simp add: alike_def arrive_def stop_def)

lemma alike_found: "alike w v \<Longrightarrow> alike (w\<lparr>found_any_conflict := b\<rparr>) (v\<lparr>found_any_conflict := b\<rparr>)"
  by (simp add: alike_def)

lemma alike_captcha:
  assumes "alike w v"
  shows "fst (snd (get_captcha_image c w)) = fst (snd (get_captcha_image c v)) \<and>
         alike (snd (snd (get_captcha_image c w))\<lparr>current_captcha := fst (get_captcha_image c w)\<rparr>)
               (snd (snd (get_captcha_image c v))\<lparr>current_captcha := fst (get_captcha_image c v)\<rparr>)"
  using assms by (cases c) (auto simp: alike_def Let_def receive_captcha_def stop_def)

lemma alike_on_exception:
  "alike w v \<Longrightarrow> fst (on_exception e c w) = fst (on_exception e c v) \<and>
                  alike (snd (on_exception e c w)) (snd (on_exception e c v))"
  using alike_captcha [of w v c]
  by (auto simp: on_exception_def split: prod.splits)

lemma alike_on_captcha_alert:
  "alike w v \<Longrightarrow> fst (on_captcha_alert c w) = fst (on_captcha_alert c v) \<and>
                  alike (snd (on_captcha_alert c w)) (snd (on_captcha_alert c v))"
  using alike_captcha [of w v c]
  by (auto simp: on_captcha_alert_def split: prod.splits)

lemma alike_scrape_links:
  "alike w v \<Longrightarrow>
   fst (scrape_links st var k ls w) = fst (scrape_links st var k ls v) \<and>
   fst (snd (scrape_links st var k ls w)) = fst (snd (scrape_links st var k ls v)) \<and>
   alike (snd (snd (scrape_links st var k ls w))) (snd (snd (scrape_links st var k ls v)))"
proof (induction st var k ls w arbitrary: v rule: scrape_links.induct)
  case (1 st var ls w)
  then show ?case by simp
next
  case (2 st var k ls w)
  have run: "is_running v = is_running w" using "2.prems" by (simp add: alike_def)
  show ?case
  proof (cases "is_running w")
    case False
    with run "2.prems" show ?thesis by simp
  next
    case True
    show ?thesis
    proof (cases ls)
      case Nil
      with True run "2.prems" show ?thesis by simp
    next
      case (Cons p rest)
      obtain l stopped where p: "p = (l, stopped)" by (cases p)
      have "alike (arrive stopped w) (arrive stopped v)"
        using "2.prems" by (rule alike_arrive)
      then have
        "fst (scrape_links st var k rest (arrive stopped w))
           = fst (scrape_links st var k rest (arrive stopped v)) \<and>
         fst (snd (scrape_links st var k rest (arrive stopped w)))
           = fst (snd (scrape_links st var k rest (arrive stopped v))) \<and>
         alike (snd (snd (scrape_links st var k rest (arrive stopped w))))
               (snd (snd (scrape_links st var k rest (arrive stopped v))))"
        using "2.IH" True Cons p by simp
      then show ?thesis using True run Cons p by (auto split: prod.splits)
    qed
  qed
qed


lemma alike_scrape_all_pages:
  "alike w v \<Longrightarrow>
   fst (scrape_all_pages st var ps seen w) = fst (scrape_all_pages st var ps seen v) \<and>
   fst (snd (scrape_all_pages st var ps seen w)) = fst (snd (scrape_all_pages st var ps seen v)) \<and>
   alike (snd (snd (scrape_all_pages st var ps seen w))) (snd (snd (scrape_all_pages st var ps seen v)))"
proof (induction st var ps seen w arbitrary: v rule: scrape_all_pages.induct)
  case (1 st var seen w)
  then show ?case by simp
next
  case (2 st var e ps seen w)
  then show ?case by (simp add: alike_def)
next
  case (3 st var sl n ls nx sn ps seen w)
  have run: "is_running v = is_running w" using "3.prems" by (simp add: alike_def)
  note a1 = alike_arrive [OF "3.prems", of sl]
  show ?case
  proof (cases "is_running w \<and> n \<noteq> 0")
    case False
    with run "3.prems" a1 show ?thesis by auto
  next
    case True
    obtain ret evs1 w1 where lw: "scrape_links st var n ls (arrive sl w) = (ret, evs1, w1)"
      by (cases "scrape_links st var n ls (arrive sl w)")
    obtain ret' evs1' v1 where lv: "scrape_links st var n ls (arrive sl v) = (ret', evs1', v1)"
      by (cases "scrape_links st var n ls (arrive sl v)")
    from alike_scrape_links [OF a1, of st var n ls] lw lv
    have eq: "ret' = ret" "evs1' = evs1" and al: "alike w1 v1" by simp_all
    show ?thesis
    proof (cases "\<not> ret \<and> nx")
      case False
      with True run lw lv eq al show ?thesis by auto
    next
      case turn: True
      have "alike (arrive sn w1) (arrive sn v1)" using al by (rule alike_arrive)
      then have
        "fst (scrape_all_pages st var ps (seen + n) (arrive sn w1))
           = fst (scrape_all_pages st var ps (seen + n) (arrive sn v1)) \<and>
         fst (snd (scrape_all_pages st var ps (seen + n) (arrive sn w1)))
           = fst (snd (scrape_all_pages st var ps (seen + n) (arrive sn v1))) \<and>
         alike (snd (snd (scrape_all_pages st var ps (seen + n) (arrive sn w1))))
               (snd (snd (scrape_all_pages st var ps (seen + n) (arrive sn v1))))"
        using "3.IH" [OF _ _ lw [symmetric]] True turn by simp
      then show ?thesis using True turn run lw lv eq by (auto split: prod.splits)
    qed
  qed
qed

lemma alike_attempt_once:
  assumes "alike w v" and "is_running w"
  shows "fst (attempt_once classes name var a w) = fst (attempt_once classes name var a v) \<and>
         fst (snd (attempt_once classes name var a w)) = fst (snd (attempt_once classes name var a v)) \<and>
         alike (snd (snd (attempt_once classes name var a w))) (snd (snd (attempt_once classes name var a v)))"
proof -
  have cur: "current_captcha v = current_captcha w" using assms by (simp add: alike_def)
  note a1 = alike_arrive [OF assms(1), of "stop_during a"]
  show ?thesis
  proof (cases "reply a")
    case (Raises e)
    with alike_on_exception [OF a1, of e "recaptcha a"] cur show ?thesis
      by (auto simp: attempt_once_def Let_def split: prod.splits)
  next
    case (Alert err)
    with alike_on_captcha_alert [OF a1, of "recaptcha a"] cur a1 show ?thesis
      by (auto simp: attempt_once_def Let_def split: prod.splits)
  next
    case (Answer panel pages)
    show ?thesis
    proof (cases "no_record_found panel")
      case True
      with Answer cur alike_arrive [OF a1, of "stop_after a"] show ?thesis
        by (simp add: attempt_once_def Let_def)
    next
      case False
      obtain r evs2 w2 where sw: "scrape_all_pages name var pages 0 (arrive (stop_during a) w) = (r, evs2, w2)"
        by (cases "scrape_all_pages name var pages 0 (arrive (stop_during a) w)")
      obtain r' evs2' v2 where sv: "scrape_all_pages name var pages 0 (arrive (stop_during a) v) = (r', evs2', v2)"
        by (cases "scrape_all_pages name var pages 0 (arrive (stop_during a) v)")
      from alike_scrape_all_pages [OF a1, of name var pages 0] sw sv
      have eq: "r' = r" "evs2' = evs2" and al: "alike w2 v2" by simp_all
      show ?thesis
      proof (cases r)
        case (Inr items)
        have "alike (arrive (stop_after a) (if 0 < items then w2\<lparr>found_any_conflict := True\<rparr> else w2))
                    (arrive (stop_after a) (if 0 < items then v2\<lparr>found_any_conflict := True\<rparr> else v2))"
          using al by (auto intro: alike_arrive alike_found)
        with Answer False sw sv eq Inr cur show ?thesis
          by (simp add: attempt_once_def Let_def)
      next
        case (Inl e)
        with alike_on_exception [OF al, of e "recaptcha a"] Answer False sw sv eq cur show ?thesis
          by (auto simp: attempt_once_def Let_def split: prod.splits)
      qed
    qed
  qed
qed


lemma alike_result_append:
  "alike_result x y \<Longrightarrow>
   alike_result (case x of None \<Rightarrow> None | Some (evs', w2, rest) \<Rightarrow> Some (evs @ evs', w2, rest))
                (case y of None \<Rightarrow> None | Some (evs', w2, rest) \<Rightarrow> Some (evs @ evs', w2, rest))"
  by (auto simp: alike_result_def split: option.splits)

lemma alike_search_variant:
  "alike w v \<Longrightarrow>
   alike_result (search_variant classes name var as w) (search_variant classes name var as v)"
proof (induction classes name var as w arbitrary: v rule: search_variant.induct)
  case (1 classes name var w)
  then show ?case by (auto simp: alike_result_def alike_def)
next
  case (2 classes name var a as w)
  have run: "is_running v = is_running w" using "2.prems" by (simp add: alike_def)
  show ?case
  proof (cases "is_running w")
    case False
    with run "2.prems" show ?thesis by (simp add: alike_result_def)
  next
    case True
    obtain oc evs1 w1 where aw: "attempt_once classes name var a w = (oc, evs1, w1)"
      by (cases "attempt_once classes name var a w")
    obtain oc' evs1' v1 where av: "attempt_once classes name var a v = (oc', evs1', v1)"
      by (cases "attempt_once classes name var a v")
    from alike_attempt_once [OF "2.prems" True, of classes name var a] aw av
    have eq: "oc' = oc" "evs1' = evs1" and al: "alike w1 v1" by simp_all
    show ?thesis
    proof (cases oc)
      case Leave
      with True run aw av eq al show ?thesis by (simp add: alike_result_def)
    next
      case Retry
      have "alike_result (search_variant classes name var as w1) (search_variant classes name var as v1)"
        using "2.IH" [OF _ aw [symmetric] _ _ al] True Retry by simp
      from alike_result_append [OF this, of evs1] True run aw av eq Retry show ?thesis by simp
    qed
  qed
qed

lemma alike_search_variants:
  "alike w v \<Longrightarrow>
   alike_result (search_variants classes name vars as w) (search_variants classes name vars as v)"
proof (induction classes name vars as w arbitrary: v rule: search_variants.induct)
  case (1 classes name as w)
  then show ?case by (simp add: alike_result_def)
next
  case (2 classes name var vars as w)
  have run: "is_running v = is_running w" using "2.prems" by (simp add: alike_def)
  show ?case
  proof (cases "is_running w")
    case False
    with run "2.prems" show ?thesis by (simp add: alike_result_def)
  next
    case True
    note sv = alike_search_variant [OF "2.prems", of classes name var as]
    show ?thesis
    proof (cases "search_variant classes name var as w")
      case None
      with sv True run show ?thesis by (simp add: alike_result_def)
    next
      case (Some res)
      obtain evs1 w1 as1 where res: "res = (evs1, w1, as1)" by (cases res)
      obtain v1 where vv: "search_variant classes name var as v = Some (evs1, v1, as1)"
        and al: "alike w1 v1"
        using sv Some res by (auto simp: alike_result_def split: option.splits)
      have "alike_result (search_variants classes name vars as1 w1) (search_variants classes name vars as1 v1)"
        using "2.IH" [OF _ Some [unfolded res] _ _ al] True by simp
      from alike_result_append [OF this, of evs1] True run Some res vv show ?thesis by simp
    qed
  qed
qed

lemma alike_process_name:
  "alike w v \<Longrightarrow>
   alike_result (process_name enum isw classes idx n_names name as w)
                (process_name enum isw classes idx n_names name as v)"
  using alike_search_variants [OF alike_found [of w v False],
      of classes name "fst (analyze_name enum isw name)" as]
  by (auto simp: process_name_def alike_result_def alike_def split: prod.splits option.splits)

lemma alike_process_names:
  "alike w v \<Longrightarrow>
   alike_result (process_names enum isw classes idx n_names names as w)
                (process_names enum isw classes idx n_names names as v)"
proof (induction enum isw classes idx n_names names as w arbitrary: v rule: process_names.induct)
  case (1 enum isw classes idx n_names as w)
  then show ?case by (simp add: alike_result_def)
next
  case (2 enum isw classes idx n_names name names as w)
  have run: "is_running v = is_running w" using "2.prems" by (simp add: alike_def)
  show ?case
  proof (cases "is_running w")
    case False
    with run "2.prems" show ?thesis by (simp add: alike_result_def)
  next
    case True
    note pn = alike_process_name [OF "2.prems", of enum isw classes idx n_names name as]
    show ?thesis
    proof (cases "process_name enum isw classes idx n_names name as w")
      case None
      with pn True run show ?thesis by (simp add: alike_result_def)
    next
      case (Some res)
      obtain evs1 w1 as1 where res: "res = (evs1, w1, as1)" by (cases res)
      obtain v1 where vv: "process_name enum isw classes idx n_names name as v = Some (evs1, v1, as1)"
        and al: "alike w1 v1"
        using pn Some res by (auto simp: alike_result_def split: option.splits)
      have "alike_result (process_names enum isw classes (idx + 1) n_names names as1 w1)
                         (process_names enum isw classes (idx + 1) n_names names as1 v1)"
        using "2.IH" [OF _ Some [unfolded res] _ _ al] True by simp
      from alike_result_append [OF this, of evs1] True run Some res vv show ?thesis by simp
    qed
  qed
qed


text \<open>
  C9 as stated: \<open>receive_captcha\<close> called while no acquisition is pending leaves the
  state of the worker unchanged. It stores the code.
\<close>

theorem stray_submission_counterexample:
  "\<not> waiting_for_captcha init_worker \<and> receive_captcha [49, 50, 51] init_worker \<noteq> init_worker"
  by (simp add: receive_captcha_def init_worker_def)

text \<open>
  C9, amended: a call of \<open>receive_captcha\<close> while no acquisition is pending overwrites
  the stored captcha code with the submitted one and changes nothing else: the flags
  \<open>is_running\<close>, \<open>is_paused\<close> and \<open>waiting_for_captcha\<close> and the token held for the
  search attempts are as before, and the rest of the run emits the same events, among them
  the same tokens typed into the search form, as it does without the call.
\<close>

theorem stray_submission:
  "\<not> waiting_for_captcha w \<Longrightarrow>
     receive_captcha code w = w\<lparr>captcha_code := Some code\<rparr> \<and>
     alike_result (process_names enum isw classes idx n_names names as (receive_captcha code w))
                  (process_names enum isw classes idx n_names names as w)"
  using alike_process_names [of "receive_captcha code w" w]
  by (simp add: receive_captcha_def alike_def)

text \<open>The code \<open>123\<close> submitted before the name \<open>ab\<close> is searched.\<close>

theorem stray_submission_witness:
  "receive_captcha [49, 50, 51] init_worker = init_worker\<lparr>captcha_code := Some [49, 50, 51]\<rparr> \<and>
   alike_result
     (process_names insertion_order word_char [53] 0 1 [[97, 98]] [quiet (Answer none_found [])]
        (receive_captcha [49, 50, 51] init_worker))
     (process_names insertion_order word_char [53] 0 1 [[97, 98]] [quiet (Answer none_found [])]
        init_worker)"
proof -
  have h: "\<not> waiting_for_captcha init_worker" by (simp add: init_worker_def)
  show ?thesis
    by (rule stray_submission [OF h])
qed

end
